theory Spec2Isabelle
  imports Main "HOL-Library.AList" "HOL-Library.Sublist"
begin

chapter \<open>The model\<close>

section \<open>JavaScript strings\<close>

text \<open>
  A JavaScript string is a sequence of UTF-16 code units; a code unit is modelled as a
  natural number. \<open>lit\<close> embeds an ASCII literal of the source.
\<close>

type_synonym jsstring = "nat list"

definition lit :: "string \<Rightarrow> jsstring" where
  "lit s = map of_char s"

text \<open>
  \<open>String.prototype.trim\<close> strips the code units that ECMAScript calls WhiteSpace
  (TAB, VT, FF, SP, NBSP, ZWNBSP and the other space separators) and LineTerminator
  (LF, CR, LS, PS) from both ends.
\<close>

definition isWhiteSpace :: "nat \<Rightarrow> bool" where
  "isWhiteSpace c =
     (c = 9 \<or> c = 10 \<or> c = 11 \<or> c = 12 \<or> c = 13 \<or> c = 32 \<or> c = 160 \<or> c = 5760
      \<or> (8192 \<le> c \<and> c \<le> 8202) \<or> c = 8232 \<or> c = 8233 \<or> c = 8239 \<or> c = 8287
      \<or> c = 12288 \<or> c = 65279)"

definition trim :: "jsstring \<Rightarrow> jsstring" where
  "trim s = rev (dropWhile isWhiteSpace (rev (dropWhile isWhiteSpace s)))"

text \<open>\<open>s.startsWith(p)\<close> and \<open>s.substring(n)\<close> / \<open>s.slice(n)\<close> for \<open>0 \<le> n\<close>.\<close>

definition startsWith :: "jsstring \<Rightarrow> jsstring \<Rightarrow> bool" where
  "startsWith s p = (take (length p) s = p)"

definition substring :: "jsstring \<Rightarrow> nat \<Rightarrow> jsstring" where
  "substring s n = drop n s"

section \<open>MessageInput: submitting the form\<close>

text \<open>
  \<^verbatim>\<open>
  const handleSubmit = (e) => {
    e.preventDefault();
    if (!input.trim()) return;
    sendMessage({ text: input });
    setInput("");
  };
  \<close>
  The component state is the \<open>input\<close> string. \<open>handleSubmit\<close> returns the input
  state after the handler and the list of texts it passed to \<open>sendMessage\<close>, in order.
  The empty string is the only falsy string, so \<open>!input.trim()\<close> holds exactly when the
  trimmed input is empty.
\<close>

definition handleSubmit :: "jsstring \<Rightarrow> jsstring \<times> jsstring list" where
  "handleSubmit input =
     (if trim input = [] then (input, [])
      else ([], [input]))"

section \<open>JSON values\<close>

text \<open>
  Values that travel as JSON between the browser and the server. An object keeps its
  entries in order.
\<close>

datatype json =
    JNull
  | JBool bool
  | JNumber int
  | JString jsstring
  | JArray "json list"
  | JObject "(jsstring \<times> json) list"

section \<open>ChatProvider: sending a message\<close>

text \<open>
  A chat message has an id, a role and parts; the parts built while a reply streams in are
  text and tool invocations.
\<close>

datatype role = System | User | Assistant

record toolcall =
  toolCallId :: jsstring
  toolName :: jsstring
  tc_input :: json
  tc_state :: jsstring
  inputBuffer :: "jsstring option"
  tc_output :: "json option"

datatype part = TextPart jsstring | ToolInvocation toolcall

record message =
  mid :: jsstring
  role :: role
  parts :: "part list"

record chat_request =
  req_messages :: "message list"
  req_files :: json
  req_projectId :: "jsstring option"

datatype effect = SetMessages "message list" | SetStatus jsstring | Fetch chat_request

record chat_state =
  messages :: "message list"
  status :: jsstring
  effects :: "effect list"

text \<open>
  The provider's React state is \<open>messages\<close> and \<open>status\<close>. \<open>effects\<close> records, in
  the order \<open>sendMessage\<close> performs them, every value it gives the list, every status it
  sets and the request it sends; a functional update \<open>setMessages(prev => f(prev))\<close> is
  applied to the value the previous updates left.
\<close>

definition setMessages :: "(message list \<Rightarrow> message list) \<Rightarrow> chat_state \<Rightarrow> chat_state" where
  "setMessages f st =
     st\<lparr>messages := f (messages st), effects := effects st @ [SetMessages (f (messages st))]\<rparr>"

definition setStatus :: "jsstring \<Rightarrow> chat_state \<Rightarrow> chat_state" where
  "setStatus s st = st\<lparr>status := s, effects := effects st @ [SetStatus s]\<rparr>"

text \<open>
  One line of the response stream carries JSON; the handler looks at its \<open>type\<close> and at
  the fields named below (\<open>delta\<close>; \<open>toolCallId\<close> and \<open>toolName\<close>; \<open>toolCallId\<close> and
  \<open>inputTextDelta\<close>; \<open>toolCallId\<close> and \<open>input\<close>; \<open>toolCallId\<close> and \<open>output\<close>). Text
  that is appended to a string is the field's value as a string. \<open>JSON.parse\<close> is a
  parameter of the model: it returns the event a line's data stands for, or \<open>None\<close> when
  parsing (or reading \<open>type\<close> off the parsed value) throws.

  The local variables of the loop: the line buffer, the parts array of the assistant
  message, the text of \<open>currentTextPart\<close> (\<open>None\<close> while it is \<open>null\<close>), the \<open>toolCalls\<close>
  map and the tool-call objects it points to. A tool-call object is shared between the map
  and the parts array, so the array holds references (\<open>ToolRef\<close> an index into
  \<open>objects\<close>), and \<open>partsNow\<close> reads the array's content off the objects.

  The copy \<open>{ ...assistantMessage }\<close> put into the list is shallow: it shares the parts
  array and the part objects with \<open>assistantMessage\<close>, and React may run the updater after
  later events have changed them. \<open>assistantCopy\<close> records the parts as they are when
  \<open>setMessages\<close> is called, so the \<open>parts\<close> of a recorded list are a snapshot that the
  list React holds may have run ahead of; the ids, the roles and the order of the messages
  of a list do not depend on when the updater runs.
\<close>

datatype stream_event =
    TextDelta jsstring
  | ToolInputStart jsstring jsstring
  | ToolInputDelta jsstring jsstring
  | ToolInputAvailable jsstring json
  | ToolOutputAvailable jsstring json
  | OtherEvent

datatype part_ref = TextRef | ToolRef nat

record stream_vars =
  buffer :: jsstring
  assistantParts :: "part_ref list"
  currentTextPart :: "jsstring option"
  toolCalls :: "(jsstring \<times> nat) list"
  objects :: "toolcall list"

definition initialVars :: stream_vars where
  "initialVars = \<lparr>buffer = [], assistantParts = [], currentTextPart = None,
                    toolCalls = [], objects = []\<rparr>"

definition partsNow :: "stream_vars \<Rightarrow> part list" where
  "partsNow vars =
     concat (map (\<lambda>r. case r of
                TextRef \<Rightarrow> (case currentTextPart vars of None \<Rightarrow> [] | Some t \<Rightarrow> [TextPart t])
              | ToolRef a \<Rightarrow> (if a < length (objects vars) then [ToolInvocation (objects vars ! a)] else []))
            (assistantParts vars))"

definition assistantCopy :: "jsstring \<Rightarrow> stream_vars \<Rightarrow> message" where
  "assistantCopy aid vars = \<lparr>mid = aid, role = Assistant, parts = partsNow vars\<rparr>"

definition publish :: "jsstring \<Rightarrow> stream_vars \<Rightarrow> chat_state \<Rightarrow> chat_state" where
  "publish aid vars st =
     setMessages (\<lambda>prev. filter (\<lambda>m. mid m \<noteq> aid) prev @ [assistantCopy aid vars]) st"

definition updateObject :: "nat \<Rightarrow> (toolcall \<Rightarrow> toolcall) \<Rightarrow> stream_vars \<Rightarrow> stream_vars" where
  "updateObject a f vars =
     (if a < length (objects vars)
      then vars\<lparr>objects := (objects vars)[a := f (objects vars ! a)]\<rparr>
      else vars)"

text \<open>
  \<^verbatim>\<open>
  if (parsed.type === "text-delta") {
    if (!currentTextPart) {
      currentTextPart = { type: "text", text: "" };
      assistantMessage.parts.push(currentTextPart);
    }
    currentTextPart.text += parsed.delta;
    setMessages((prev) => {
      const without = prev.filter((m) => m.id !== assistantMessage.id);
      return [...without, { ...assistantMessage }];
    });
  } else if (parsed.type === "tool-input-start") {
    toolCalls.set(parsed.toolCallId, { type: "tool-invocation", toolCallId: parsed.toolCallId,
      toolName: parsed.toolName, input: {}, state: "pending", inputBuffer: "" });
  } else if (parsed.type === "tool-input-delta") {
    const toolCall = toolCalls.get(parsed.toolCallId);
    if (toolCall) toolCall.inputBuffer += parsed.inputTextDelta;
  } else if (parsed.type === "tool-input-available") {
    const toolCall = toolCalls.get(parsed.toolCallId);
    if (toolCall) {
      toolCall.input = parsed.input;
      delete toolCall.inputBuffer;
      assistantMessage.parts.push(toolCall);
      setMessages(...as above...);
    }
  } else if (parsed.type === "tool-output-available") {
    const toolCall = toolCalls.get(parsed.toolCallId);
    if (toolCall) {
      toolCall.output = parsed.output;
      toolCall.state = "result";
      setMessages(...as above...);
    }
  }
  \<close>
  Appending to a deleted \<open>inputBuffer\<close> appends to the string \<open>"undefined"\<close>.
\<close>

fun handleEvent :: "jsstring \<Rightarrow> stream_event \<Rightarrow> stream_vars \<times> chat_state \<Rightarrow> stream_vars \<times> chat_state" where
  "handleEvent aid (TextDelta d) (vars, st) =
     (let vars1 = (case currentTextPart vars of
                     None \<Rightarrow> vars\<lparr>currentTextPart := Some [],
                                    assistantParts := assistantParts vars @ [TextRef]\<rparr>
                   | Some t \<Rightarrow> vars);
          vars2 = vars1\<lparr>currentTextPart := map_option (\<lambda>t. t @ d) (currentTextPart vars1)\<rparr>
      in (vars2, publish aid vars2 st))"
| "handleEvent aid (ToolInputStart tcid name) (vars, st) =
     (vars\<lparr>objects := objects vars @
               [\<lparr>toolCallId = tcid, toolName = name, tc_input = JObject [],
                 tc_state = lit ''pending'', inputBuffer = Some [], tc_output = None\<rparr>],
            toolCalls := AList.update tcid (length (objects vars)) (toolCalls vars)\<rparr>,
      st)"
| "handleEvent aid (ToolInputDelta tcid d) (vars, st) =
     (case map_of (toolCalls vars) tcid of
        None \<Rightarrow> (vars, st)
      | Some a \<Rightarrow>
          (updateObject a
             (\<lambda>tc. tc\<lparr>inputBuffer :=
                        Some ((case inputBuffer tc of None \<Rightarrow> lit ''undefined'' | Some b \<Rightarrow> b) @ d)\<rparr>)
             vars,
           st))"
| "handleEvent aid (ToolInputAvailable tcid inp) (vars, st) =
     (case map_of (toolCalls vars) tcid of
        None \<Rightarrow> (vars, st)
      | Some a \<Rightarrow>
          (let vars1 = updateObject a (\<lambda>tc. tc\<lparr>tc_input := inp, inputBuffer := None\<rparr>) vars;
               vars2 = vars1\<lparr>assistantParts := assistantParts vars1 @ [ToolRef a]\<rparr>
           in (vars2, publish aid vars2 st)))"
| "handleEvent aid (ToolOutputAvailable tcid out) (vars, st) =
     (case map_of (toolCalls vars) tcid of
        None \<Rightarrow> (vars, st)
      | Some a \<Rightarrow>
          (let vars1 = updateObject a
                         (\<lambda>tc. tc\<lparr>tc_output := Some out, tc_state := lit ''result''\<rparr>) vars
           in (vars1, publish aid vars1 st)))"
| "handleEvent aid OtherEvent (vars, st) = (vars, st)"

text \<open>
  \<^verbatim>\<open>
  for (const line of lines) {
    if (!line.trim() || !line.startsWith("data: ")) continue;
    const data = line.slice(6);
    if (data === "[DONE]") continue;
    try { const parsed = JSON.parse(data); ... }
    catch (e) { console.error("Failed to parse stream data:", e); }
  }
  \<close>
  An exception of \<open>JSON.parse\<close> is caught inside the loop: the line is skipped.
\<close>

definition handleLine ::
  "(jsstring \<Rightarrow> stream_event option) \<Rightarrow> jsstring \<Rightarrow> jsstring
     \<Rightarrow> stream_vars \<times> chat_state \<Rightarrow> stream_vars \<times> chat_state" where
  "handleLine parse aid line acc =
     (if trim line = [] \<or> \<not> startsWith line (lit ''data: '') then acc
      else let d = substring line 6 in
        if d = lit ''[DONE]'' then acc
        else (case parse d of
                None \<Rightarrow> acc
              | Some e \<Rightarrow> handleEvent aid e acc))"

text \<open>
  \<^verbatim>\<open>
  buffer += decoder.decode(value, { stream: true });
  const lines = buffer.split("\n");
  buffer = lines.pop() || "";
  \<close>
  \<open>splitOn 10\<close> is \<open>split("\n")\<close>; a chunk is the decoded text of one \<open>reader.read()\<close>.
\<close>

fun splitOn :: "nat \<Rightarrow> jsstring \<Rightarrow> jsstring list" where
  "splitOn sep [] = [[]]"
| "splitOn sep (c # s) =
     (if c = sep then [] # splitOn sep s
      else (case splitOn sep s of
              [] \<Rightarrow> [[c]]
            | l # ls \<Rightarrow> (c # l) # ls))"

definition handleChunk ::
  "(jsstring \<Rightarrow> stream_event option) \<Rightarrow> jsstring \<Rightarrow> jsstring
     \<Rightarrow> stream_vars \<times> chat_state \<Rightarrow> stream_vars \<times> chat_state" where
  "handleChunk parse aid chunk acc =
     (let lines = splitOn 10 (buffer (fst acc) @ chunk);
          acc1 = ((fst acc)\<lparr>buffer := last lines\<rparr>, snd acc)
      in foldl (\<lambda>a line. handleLine parse aid line a) acc1 (butlast lines))"

text \<open>
  What the network does is an input of the model: \<open>fetch\<close> rejects, or it resolves to a
  response with its \<open>ok\<close> flag and, when the body has a reader, the chunks the reader
  yields and how reading ends (\<open>done\<close>, or \<open>reader.read()\<close> rejects).
\<close>

datatype stream_end = StreamDone | ReadFails

datatype fetch_outcome =
    FetchRejects
  | Response bool "(jsstring list \<times> stream_end) option"

text \<open>
  \<^verbatim>\<open>
  const sendMessage = useCallback(async (message: { text: string }) => {
    const userMessage = { id: Math.random().toString(36).substring(7), role: "user",
                          parts: [{ type: "text", text: message.text }] };
    setMessages((prev) => [...prev, userMessage]);
    setStatus("streaming");
    try {
      const response = await fetch("/api/chat", { method: "POST", ...,
        body: JSON.stringify({ messages: [...messages, userMessage],
                               files: fileSystem.serialize(), projectId }) });
      if (!response.ok) throw new Error(...);
      const reader = response.body?.getReader();
      if (!reader) throw new Error("No reader available");
      ...
      const assistantMessage = { id: Math.random().toString(36).substring(7),
                                 role: "assistant", parts: [] };
      while (true) { const { done, value } = await reader.read(); if (done) break; ... }
      setMessages((prev) => {
        const without = prev.filter((m) => m.id !== assistantMessage.id);
        return [...without, assistantMessage];
      });
      setStatus("idle");
    } catch (error) { console.error(...); setStatus("error"); }
  }, [messages, fileSystem, projectId]);
  \<close>
  The two random ids are the parameters \<open>uid\<close> and \<open>aid\<close>; \<open>closureMessages\<close> is the
  \<open>messages\<close> value the callback closed over; \<open>serializeFs\<close> and \<open>fileSystem\<close> stand for
  \<open>fileSystem.serialize()\<close>, whose code is not part of this development.
\<close>

definition userMessageOf :: "jsstring \<Rightarrow> jsstring \<Rightarrow> message" where
  "userMessageOf uid utext = \<lparr>mid = uid, role = User, parts = [TextPart utext]\<rparr>"

definition requestOf ::
  "('fs \<Rightarrow> json) \<Rightarrow> 'fs \<Rightarrow> jsstring option \<Rightarrow> message list \<Rightarrow> message \<Rightarrow> chat_request" where
  "requestOf serializeFs fileSystem projectId closureMessages userMessage =
     \<lparr>req_messages = closureMessages @ [userMessage],
      req_files = serializeFs fileSystem,
      req_projectId = projectId\<rparr>"

definition requested ::
  "('fs \<Rightarrow> json) \<Rightarrow> 'fs \<Rightarrow> jsstring option \<Rightarrow> message list \<Rightarrow> jsstring \<Rightarrow> jsstring
     \<Rightarrow> chat_state \<Rightarrow> chat_state" where
  "requested serializeFs fileSystem projectId closureMessages uid utext st =
     (let userMessage = userMessageOf uid utext;
          st1 = setMessages (\<lambda>prev. prev @ [userMessage]) st;
          st2 = setStatus (lit ''streaming'') st1
      in st2\<lparr>effects := effects st2 @
              [Fetch (requestOf serializeFs fileSystem projectId closureMessages userMessage)]\<rparr>)"

definition sendMessage ::
  "(jsstring \<Rightarrow> stream_event option) \<Rightarrow> ('fs \<Rightarrow> json) \<Rightarrow> 'fs \<Rightarrow> jsstring option \<Rightarrow> message list
     \<Rightarrow> jsstring \<Rightarrow> jsstring \<Rightarrow> jsstring \<Rightarrow> fetch_outcome \<Rightarrow> chat_state \<Rightarrow> chat_state" where
  "sendMessage parse serializeFs fileSystem projectId closureMessages uid aid utext outcome st =
     (let st3 = requested serializeFs fileSystem projectId closureMessages uid utext st
      in case outcome of
           FetchRejects \<Rightarrow> setStatus (lit ''error'') st3
         | Response ok body \<Rightarrow>
             if \<not> ok then setStatus (lit ''error'') st3
             else (case body of
                     None \<Rightarrow> setStatus (lit ''error'') st3
                   | Some (chunks, fin) \<Rightarrow>
                       (let acc = foldl (\<lambda>a chunk. handleChunk parse aid chunk a)
                                    (initialVars, st3) chunks
                        in case fin of
                             ReadFails \<Rightarrow> setStatus (lit ''error'') (snd acc)
                           | StreamDone \<Rightarrow>
                               setStatus (lit ''idle'') (publish aid (fst acc) (snd acc)))))"


definition isAssistantUpdate :: "jsstring \<Rightarrow> message list \<Rightarrow> message list \<Rightarrow> bool" where
  "isAssistantUpdate aid prev ms =
     (ms \<noteq> [] \<and> mid (last ms) = aid \<and> role (last ms) = Assistant
      \<and> butlast ms = filter (\<lambda>m. mid m \<noteq> aid) prev)"

fun updatesFrom :: "jsstring \<Rightarrow> message list \<Rightarrow> message list list \<Rightarrow> bool" where
  "updatesFrom aid prev [] = True"
| "updatesFrom aid prev (ms # rest) = (isAssistantUpdate aid prev ms \<and> updatesFrom aid ms rest)"

fun requestFails :: "fetch_outcome \<Rightarrow> bool" where
  "requestFails FetchRejects = True"
| "requestFails (Response ok body) = (\<not> ok \<or> body = None)"

fun readFails :: "fetch_outcome \<Rightarrow> bool" where
  "readFails (Response True (Some (chunks, ReadFails))) = True"
| "readFails oc = False"

fun completes :: "fetch_outcome \<Rightarrow> bool" where
  "completes (Response True (Some (chunks, StreamDone))) = True"
| "completes oc = False"


text \<open>
  Concrete inputs for the examples below. \<open>sampleParse\<close> agrees with \<open>JSON.parse\<close> on
  the three data lines the examples use: a text delta, an event the handler ignores, and
  \<open>{bad\<close>, on which \<open>JSON.parse\<close> throws a SyntaxError. In \<open>sampleChunks\<close> the second
  line is split across two chunks.
\<close>

definition sampleParse :: "jsstring \<Rightarrow> stream_event option" where
  \<open>sampleParse d =
     (if d = lit ''{"type":"text-delta","delta":"Hi"}'' then Some (TextDelta (lit ''Hi''))
      else if d = lit ''{"type":"finish"}'' then Some OtherEvent
      else None)\<close>

definition idleChat :: chat_state where
  "idleChat = \<lparr>messages = [], status = lit ''idle'', effects = []\<rparr>"

definition sampleChunks :: "jsstring list" where
  \<open>sampleChunks =
     [lit ''data: {"type":"text-delta","delta":"Hi"}'' @ [10] @ lit ''da'',
      lit ''ta: {"type":"text-delta","delta":"Hi"}'' @ [10]]\<close>

definition sampleRun :: "fetch_outcome \<Rightarrow> chat_state" where
  "sampleRun outcome =
     sendMessage sampleParse (\<lambda>u::unit. JObject []) () None []
       (lit ''u1'') (lit ''a1'') (lit ''hello'') outcome idleChat"

text \<open>What the streaming loop may do to the chat state between two points.\<close>

definition streamed :: "jsstring \<Rightarrow> chat_state \<Rightarrow> chat_state \<Rightarrow> bool" where
  "streamed aid st st' =
     (\<exists>xs. effects st' = effects st @ map SetMessages xs
           \<and> updatesFrom aid (messages st) xs
           \<and> messages st' = last (messages st # xs)
           \<and> status st' = status st)"

section \<open>The Virtual File Store\<close>

text \<open>
  The store (\<open>VirtualFileSystem\<close>, \<open>src/lib/file-system.ts\<close> of the repository) is used by
  the chat route and by the chat context, but its code is not among the sources this
  development was written from. Every definition of this section is therefore modelled from the specification's
  words, sections 3 and 4.1, and says so.
\<close>

text \<open>
  Modelled from the spec: a node's name, a non-empty string without the path separator
  (missing: the \<open>FileNode\<close> type).
\<close>

type_synonym name = jsstring

text \<open>
  Modelled from the spec: the test a name passes, "names are non-empty, contain no path
  separator" (missing: the store's name check).
\<close>

definition isName :: "jsstring \<Rightarrow> bool" where
  "isName n = (n \<noteq> [] \<and> 47 \<notin> set n)"

text \<open>
  Modelled from the spec: a path, "a string beginning at the store root, using
  \<open>/\<close> separators", once normalized: the list of names from the root (missing:
  the store's path type).
\<close>

type_synonym path = "name list"

text \<open>
  Modelled from the spec: the FileNode of section 3, "either a file (holds a text payload)
  or a directory (holds an ordered mapping from child name to child FileNode, insertion
  order preserved)" (missing: the \<open>FileNode\<close> type).
\<close>

datatype node = File jsstring | Dir "(name \<times> node) list"

text \<open>
  Modelled from the spec: the error kinds of section 7 that the store returns (missing:
  the store's error values).
\<close>

datatype store_error = NotFound | AlreadyExists | NotAFile | NotADirectory | InvalidPath

text \<open>
  Modelled from the spec: the invariants of section 3, "names are non-empty, contain no
  path separator; within one directory, names are unique" (missing: the store's checks).
\<close>

primrec wfNode :: "node \<Rightarrow> bool" where
  "wfNode (File c) = True"
| "wfNode (Dir cs) =
     (distinct (map fst cs) \<and> list_all isName (map fst cs)
      \<and> list_all snd (map (map_prod id wfNode) cs))"

text \<open>
  Modelled from the spec: "the root is always a directory" (missing: the store's root).
\<close>

definition wfStore :: "node \<Rightarrow> bool" where
  "wfStore root = (wfNode root \<and> (case root of Dir cs \<Rightarrow> True | File c \<Rightarrow> False))"

text \<open>
  Modelled from the spec: the store as created, a root directory without children
  (missing: the store's constructor).
\<close>

definition emptyStore :: node where
  "emptyStore = Dir []"

text \<open>
  Modelled from the spec: path lookup, "all lookups recompute from root by path on every
  access" (missing: the store's node lookup).
\<close>

fun lookup :: "node \<Rightarrow> path \<Rightarrow> node option" where
  "lookup n [] = Some n"
| "lookup (File c) (s # ss) = None"
| "lookup (Dir cs) (s # ss) =
     (case map_of cs s of None \<Rightarrow> None | Some ch \<Rightarrow> lookup ch ss)"

text \<open>
  Modelled from the spec: \<open>read(path)\<close>, "returns file content or fails with
  NotFound; fails with NotAFile if path is a directory" (missing: the store's read).
\<close>

definition read :: "node \<Rightarrow> path \<Rightarrow> store_error + jsstring" where
  "read root p =
     (case lookup root p of
        None \<Rightarrow> Inl NotFound
      | Some (Dir cs) \<Rightarrow> Inl NotAFile
      | Some (File c) \<Rightarrow> Inr c)"

text \<open>
  Modelled from the spec: \<open>list(directoryPath)\<close>, "a stable, insertion-ordered
  listing of immediate children; fails with NotFound or NotAFile" (missing: the store's
  listing).
\<close>

definition listDir :: "node \<Rightarrow> path \<Rightarrow> store_error + name list" where
  "listDir root p =
     (case lookup root p of
        None \<Rightarrow> Inl NotFound
      | Some (File c) \<Rightarrow> Inl NotAFile
      | Some (Dir cs) \<Rightarrow> Inr (map fst cs))"

text \<open>
  Modelled from the spec: placing a node at a free path, "creates any missing intermediate
  directories automatically" when \<open>mk\<close> is set; a new child is appended to its
  directory, an existing child keeps its place (missing: the store's insertion). The
  specification does not say what happens when an ancestor of the path is a file; the
  model fails with NotADirectory.
\<close>

fun insertAt :: "bool \<Rightarrow> node \<Rightarrow> path \<Rightarrow> node \<Rightarrow> store_error + node" where
  "insertAt mk n [] x = Inl AlreadyExists"
| "insertAt mk (File c) (s # ss) x = Inl NotADirectory"
| "insertAt mk (Dir cs) (s # ss) x =
     (case map_of cs s of
        Some ch \<Rightarrow>
          (case insertAt mk ch ss x of
             Inl e \<Rightarrow> Inl e
           | Inr ch' \<Rightarrow> Inr (Dir (AList.update s ch' cs)))
      | None \<Rightarrow>
          if ss = [] then Inr (Dir (cs @ [(s, x)]))
          else if mk then
            (case insertAt mk (Dir []) ss x of
               Inl e \<Rightarrow> Inl e
             | Inr d \<Rightarrow> Inr (Dir (cs @ [(s, d)])))
          else Inl NotFound)"

text \<open>
  Modelled from the spec: replacing the content of the file at a path, "whole-content
  replace" (missing: the store's write).
\<close>

fun writeAt :: "node \<Rightarrow> path \<Rightarrow> jsstring \<Rightarrow> store_error + node" where
  "writeAt (File old) [] c = Inr (File c)"
| "writeAt (Dir cs) [] c = Inl NotAFile"
| "writeAt (File old) (s # ss) c = Inl NotFound"
| "writeAt (Dir cs) (s # ss) c =
     (case map_of cs s of
        None \<Rightarrow> Inl NotFound
      | Some ch \<Rightarrow>
          (case writeAt ch ss c of
             Inl e \<Rightarrow> Inl e
           | Inr ch' \<Rightarrow> Inr (Dir (AList.update s ch' cs))))"

text \<open>
  Modelled from the spec: removing the node at a path, "recursively for directories"
  (missing: the store's removal). The root cannot be removed.
\<close>

fun removeAt :: "node \<Rightarrow> path \<Rightarrow> store_error + node" where
  "removeAt n [] = Inl InvalidPath"
| "removeAt (File c) (s # ss) = Inl NotFound"
| "removeAt (Dir cs) (s # ss) =
     (case map_of cs s of
        None \<Rightarrow> Inl NotFound
      | Some ch \<Rightarrow>
          if ss = [] then Inr (Dir (AList.delete s cs))
          else (case removeAt ch ss of
                  Inl e \<Rightarrow> Inl e
                | Inr ch' \<Rightarrow> Inr (Dir (AList.update s ch' cs))))"

text \<open>
  Modelled from the spec: a path is made of names (missing: the store's path validation).
\<close>

definition validPath :: "path \<Rightarrow> bool" where
  "validPath p = list_all isName p"

text \<open>
  Modelled from the spec: \<open>create(path, content)\<close>, "fails with AlreadyExists
  if a node already occupies path; otherwise creates any missing intermediate directories
  automatically, then the file" (missing: the store's create).
\<close>

definition create :: "node \<Rightarrow> path \<Rightarrow> jsstring \<Rightarrow> store_error + node" where
  "create root p c =
     (if \<not> validPath p then Inl InvalidPath
      else if lookup root p \<noteq> None then Inl AlreadyExists
      else insertAt True root p (File c))"

text \<open>
  Modelled from the spec: \<open>update(path, content)\<close>, "replaces file content;
  fails with NotFound if absent" (missing: the store's update).
\<close>

definition update :: "node \<Rightarrow> path \<Rightarrow> jsstring \<Rightarrow> store_error + node" where
  "update root p c = writeAt root p c"

text \<open>
  Modelled from the spec: \<open>delete(path)\<close>, "removes file or directory
  (recursively for directories); fails with NotFound" (missing: the store's delete).
\<close>

definition delete :: "node \<Rightarrow> path \<Rightarrow> store_error + node" where
  "delete root p = removeAt root p"

text \<open>
  Modelled from the spec: \<open>rename(oldPath, newPath)\<close>, "fails with NotFound if
  source absent, AlreadyExists if destination occupied; must preserve subtree structure":
  the subtree is taken out at the old path and placed at the new one, missing directories
  above the new path being created as \<open>create\<close> does (missing: the store's
  rename). A directory cannot be moved below itself.
\<close>

definition rename :: "node \<Rightarrow> path \<Rightarrow> path \<Rightarrow> store_error + node" where
  "rename root old new =
     (case lookup root old of
        None \<Rightarrow> Inl NotFound
      | Some sub \<Rightarrow>
          if lookup root new \<noteq> None then Inl AlreadyExists
          else if \<not> validPath new \<or> prefix old new then Inl InvalidPath
          else (case removeAt root old of
                  Inl e \<Rightarrow> Inl e
                | Inr root1 \<Rightarrow> insertAt True root1 new sub))"

text \<open>
  Modelled from the spec: the serialization form, "a plain nested mapping from name to
  either a content string (file) or a nested mapping (directory)" (missing: the store's
  serialize).
\<close>

primrec toJson :: "node \<Rightarrow> json" where
  "toJson (File c) = JString c"
| "toJson (Dir cs) = JObject (map (map_prod id toJson) cs)"

text \<open>
  Modelled from the spec: collecting the children of a directory when every one of them
  was read back (missing: the store's deserialize).
\<close>

fun allSome :: "('k \<times> 'v option) list \<Rightarrow> ('k \<times> 'v) list option" where
  "allSome [] = Some []"
| "allSome ((k, None) # kvs) = None"
| "allSome ((k, Some v) # kvs) = map_option ((#) (k, v)) (allSome kvs)"

text \<open>
  Modelled from the spec: reading the serialization form back; a value of another shape is
  refused (missing: the store's deserialize).
\<close>

primrec fromJson :: "json \<Rightarrow> node option" where
  "fromJson JNull = None"
| "fromJson (JBool b) = None"
| "fromJson (JNumber i) = None"
| "fromJson (JString c) = Some (File c)"
| "fromJson (JArray xs) = None"
| "fromJson (JObject kvs) =
     (if distinct (map fst kvs) \<and> list_all isName (map fst kvs)
      then map_option Dir (allSome (map (map_prod id fromJson) kvs))
      else None)"

text \<open>
  Modelled from the spec: \<open>serialize()\<close> of the whole store (missing: the
  store's serialize).
\<close>

definition serialize :: "node \<Rightarrow> json" where
  "serialize root = toJson root"

text \<open>
  Modelled from the spec: \<open>deserialize(snapshot)\<close>; the snapshot of a store is
  a mapping (missing: the store's deserialize).
\<close>

definition deserialize :: "json \<Rightarrow> node option" where
  "deserialize v = (case v of JObject kvs \<Rightarrow> fromJson v | _ \<Rightarrow> None)"

text \<open>
  Modelled from the spec: the operations of "a finite sequence of create, update, delete,
  and rename operations" (section 8).
\<close>

datatype store_op =
    Create path jsstring
  | Update path jsstring
  | Delete path
  | Rename path path

text \<open>
  Modelled from the spec: one operation applied to the store (section 4.1).
\<close>

fun applyOp :: "node \<Rightarrow> store_op \<Rightarrow> store_error + node" where
  "applyOp root (Create p c) = create root p c"
| "applyOp root (Update p c) = update root p c"
| "applyOp root (Delete p) = delete root p"
| "applyOp root (Rename p q) = rename root p q"

text \<open>
  Modelled from the spec: a sequence of operations; "each call atomic", so an operation
  that fails leaves the store as it was (section 4.2).
\<close>

fun applyOps :: "node \<Rightarrow> store_op list \<Rightarrow> node" where
  "applyOps root [] = root"
| "applyOps root (opn # ops) =
     applyOps (case applyOp root opn of Inl e \<Rightarrow> root | Inr root' \<Rightarrow> root') ops"

text \<open>
  Modelled from the spec: what a path resolves to, as far as \<open>read\<close> can tell:
  nothing, a file with its content, or a directory.
\<close>

datatype kind = Absent | IsFile jsstring | IsDir

text \<open>
  Modelled from the spec: the kind of node a path resolves to (missing: the store's
  lookup).
\<close>

definition kindAt :: "node \<Rightarrow> path \<Rightarrow> kind" where
  "kindAt n q =
     (case lookup n q of
        None \<Rightarrow> Absent
      | Some (File c) \<Rightarrow> IsFile c
      | Some (Dir cs) \<Rightarrow> IsDir)"

text \<open>
  Modelled from the spec: an example store, the files \<open>/a.txt\<close> and
  \<open>/b.txt\<close>.
\<close>

definition twoFiles :: node where
  "twoFiles = Dir [(lit ''a.txt'', File (lit ''x'')), (lit ''b.txt'', File (lit ''y''))]"

text \<open>
  Modelled from the spec: an example store, the file \<open>/a/b.txt\<close>.
\<close>

definition nestedFile :: node where
  "nestedFile = Dir [(lit ''a'', Dir [(lit ''b.txt'', File (lit ''x''))])]"

section \<open>The Transform Pipeline\<close>

text \<open>
  The pipeline (\<open>src/lib/transform/jsx-transformer.ts\<close> of the repository) is not among
  the sources this development was written from; the repository's guide says of it that
  third-party imports resolve to the \<open>esm.sh\<close> CDN and that missing imports get placeholder
  components. Every definition of this section is modelled from the specification's words,
  sections 3, 4.3 and 7, and says so.
\<close>





























chapter \<open>Properties\<close>

section \<open>Properties: JavaScript strings\<close>

lemma dropWhile_all_iff: "(\<forall>c \<in> set (dropWhile P s). P c) \<longleftrightarrow> (\<forall>c \<in> set s. P c)"
  by (induction s) auto

lemma trim_empty_iff: "trim s = [] \<longleftrightarrow> (\<forall>c \<in> set s. isWhiteSpace c)"
proof -
  have "trim s = [] \<longleftrightarrow> dropWhile isWhiteSpace (rev (dropWhile isWhiteSpace s)) = []"
    by (simp add: trim_def)
  also have "\<dots> \<longleftrightarrow> (\<forall>c \<in> set (dropWhile isWhiteSpace s). isWhiteSpace c)"
    by (simp only: dropWhile_eq_Nil_conv set_rev)
  also have "\<dots> \<longleftrightarrow> (\<forall>c \<in> set s. isWhiteSpace c)"
    by (rule dropWhile_all_iff)
  finally show ?thesis .
qed

section \<open>Properties: MessageInput: submitting the form\<close>

text \<open>
  Claim C10. \<open>handleSubmit\<close> calls \<open>sendMessage\<close> if and only if the trimmed input is
  not empty. An input that is empty or consists of white space only is left unchanged and
  nothing is sent; any other input is sent exactly once, untrimmed, and the input state
  becomes the empty string.
\<close>

theorem handleSubmit_sends_iff_trim_nonempty:
  "(snd (handleSubmit inp) \<noteq> []) = (trim inp \<noteq> [])
   \<and> ((\<forall>c \<in> set inp. isWhiteSpace c) \<longrightarrow> handleSubmit inp = (inp, []))
   \<and> ((\<exists>c \<in> set inp. \<not> isWhiteSpace c) \<longrightarrow> handleSubmit inp = ([], [inp]))"
proof -
  have a: "(snd (handleSubmit inp) \<noteq> []) = (trim inp \<noteq> [])"
    by (simp add: handleSubmit_def)
  have b: "(\<forall>c \<in> set inp. isWhiteSpace c) \<longrightarrow> handleSubmit inp = (inp, [])"
    by (simp add: handleSubmit_def trim_empty_iff)
  have c: "(\<exists>c \<in> set inp. \<not> isWhiteSpace c) \<longrightarrow> handleSubmit inp = ([], [inp])"
    using trim_empty_iff [of inp] by (auto simp add: handleSubmit_def)
  from a b c show ?thesis by blast
qed

theorem handleSubmit_sends_iff_trim_nonempty_witness:
  "handleSubmit (lit ''   '') = (lit ''   '', [])
   \<and> handleSubmit [] = ([], [])
   \<and> handleSubmit (lit '' Test message '') = ([], [lit '' Test message ''])"
proof -
  have blank: "\<forall>c \<in> set (lit ''   ''). isWhiteSpace c"
    by (simp add: lit_def isWhiteSpace_def)
  have nonblank: "\<exists>c \<in> set (lit '' Test message ''). \<not> isWhiteSpace c"
    by (simp add: lit_def isWhiteSpace_def)
  show ?thesis
    using handleSubmit_sends_iff_trim_nonempty [of "lit ''   ''"]
      handleSubmit_sends_iff_trim_nonempty [of "[]"]
      handleSubmit_sends_iff_trim_nonempty [of "lit '' Test message ''"]
      blank nonblank
    by simp
qed

section \<open>Properties: ChatProvider: sending a message\<close>


subsection \<open>What streaming does to the list\<close>



lemma updatesFrom_append:
  "updatesFrom aid prev (xs @ ys) = (updatesFrom aid prev xs \<and> updatesFrom aid (last (prev # xs)) ys)"
  by (induction xs arbitrary: prev) simp_all


lemma isAssistantUpdate_keeps:
  assumes "isAssistantUpdate aid prev ms" "m \<in> set prev" "mid m \<noteq> aid"
  shows "m \<in> set ms"
proof -
  from assms(1) have ne: "ms \<noteq> []" and b: "butlast ms = filter (\<lambda>m. mid m \<noteq> aid) prev"
    by (simp_all add: isAssistantUpdate_def)
  from assms(2,3) have "m \<in> set (butlast ms)" unfolding b by simp
  then show ?thesis by (rule in_set_butlastD)
qed


lemma updatesFrom_keeps:
  "updatesFrom aid prev xs \<Longrightarrow> m \<in> set prev \<Longrightarrow> mid m \<noteq> aid \<Longrightarrow> m \<in> set (last (prev # xs))"
proof (induction xs arbitrary: prev)
  case Nil
  then show ?case by simp
next
  case (Cons x xs)
  from Cons.prems have u: "isAssistantUpdate aid prev x" and r: "updatesFrom aid x xs" by simp_all
  from isAssistantUpdate_keeps [OF u Cons.prems(2,3)] have "m \<in> set x" .
  from Cons.IH [OF r this Cons.prems(3)] show ?case by simp
qed

lemma streamed_refl: "streamed aid st st"
  unfolding streamed_def by (rule exI [of _ "[]"]) simp

lemma streamed_trans:
  assumes "streamed aid a b" "streamed aid b c"
  shows "streamed aid a c"
proof -
  from assms(1) obtain xs where x: "effects b = effects a @ map SetMessages xs"
    "updatesFrom aid (messages a) xs" "messages b = last (messages a # xs)" "status b = status a"
    unfolding streamed_def by blast
  from assms(2) obtain ys where y: "effects c = effects b @ map SetMessages ys"
    "updatesFrom aid (messages b) ys" "messages c = last (messages b # ys)" "status c = status b"
    unfolding streamed_def by blast
  have e: "effects c = effects a @ map SetMessages (xs @ ys)" using x(1) y(1) by simp
  have u: "updatesFrom aid (messages a) (xs @ ys)"
    using x(2) y(2) x(3) by (simp add: updatesFrom_append)
  have m: "messages c = last (messages a # (xs @ ys))"
    using x(3) y(3) by (cases ys) simp_all
  have s: "status c = status a" using x(4) y(4) by simp
  show ?thesis unfolding streamed_def using e u m s by blast
qed

lemma streamed_publish: "streamed aid st (publish aid vars st)"
proof -
  let ?ms = "filter (\<lambda>m. mid m \<noteq> aid) (messages st) @ [assistantCopy aid vars]"
  have u: "isAssistantUpdate aid (messages st) ?ms"
    by (simp add: isAssistantUpdate_def assistantCopy_def)
  show ?thesis
    unfolding streamed_def
    by (rule exI [of _ "[?ms]"]) (use u in \<open>simp add: publish_def setMessages_def\<close>)
qed

lemma streamed_handleEvent: "streamed aid (snd acc) (snd (handleEvent aid e acc))"
proof (cases acc)
  case (Pair vars st)
  show ?thesis
  proof (cases e)
    case (TextDelta d)
    then show ?thesis using Pair by (simp add: Let_def streamed_publish)
  next
    case (ToolInputStart tcid name)
    then show ?thesis using Pair by (simp add: streamed_refl)
  next
    case (ToolInputDelta tcid d)
    then show ?thesis using Pair by (simp add: streamed_refl split: option.split)
  next
    case (ToolInputAvailable tcid inp)
    then show ?thesis using Pair
      by (simp add: Let_def streamed_refl streamed_publish split: option.split)
  next
    case (ToolOutputAvailable tcid out)
    then show ?thesis using Pair
      by (simp add: Let_def streamed_refl streamed_publish split: option.split)
  next
    case OtherEvent
    then show ?thesis using Pair by (simp add: streamed_refl)
  qed
qed

lemma streamed_handleLine: "streamed aid (snd acc) (snd (handleLine parse aid line acc))"
  by (simp add: handleLine_def Let_def streamed_refl streamed_handleEvent split: option.split)

lemma streamed_foldl:
  assumes step: "\<And>a x. streamed aid (snd a) (snd (f a x))"
  shows "streamed aid (snd acc) (snd (foldl f acc xs))"
proof (induction xs arbitrary: acc)
  case Nil
  show ?case by (simp add: streamed_refl)
next
  case (Cons x xs)
  have "streamed aid (snd acc) (snd (f acc x))" by (rule step)
  moreover have "streamed aid (snd (f acc x)) (snd (foldl f (f acc x) xs))" by (rule Cons.IH)
  ultimately show ?case by (simp add: streamed_trans)
qed

lemma streamed_handleChunk: "streamed aid (snd acc) (snd (handleChunk parse aid chunk acc))"
proof -
  let ?lines = "splitOn 10 (buffer (fst acc) @ chunk)"
  let ?acc1 = "((fst acc)\<lparr>buffer := last ?lines\<rparr>, snd acc)"
  have "streamed aid (snd ?acc1)
          (snd (foldl (\<lambda>a line. handleLine parse aid line a) ?acc1 (butlast ?lines)))"
    by (rule streamed_foldl) (rule streamed_handleLine)
  then show ?thesis by (simp add: handleChunk_def Let_def)
qed

lemma streamed_chunks:
  "streamed aid (snd acc) (snd (foldl (\<lambda>a chunk. handleChunk parse aid chunk a) acc chunks))"
  by (rule streamed_foldl) (rule streamed_handleChunk)

lemma requested_simps:
  "messages (requested serializeFs fileSystem projectId closureMessages uid utext st)
     = messages st @ [userMessageOf uid utext]"
  "status (requested serializeFs fileSystem projectId closureMessages uid utext st) = lit ''streaming''"
  "effects (requested serializeFs fileSystem projectId closureMessages uid utext st)
     = effects st @
        [SetMessages (messages st @ [userMessageOf uid utext]),
         SetStatus (lit ''streaming''),
         Fetch (requestOf serializeFs fileSystem projectId closureMessages (userMessageOf uid utext))]"
  by (simp_all add: requested_def setMessages_def setStatus_def Let_def)

lemma sendMessage_shape:
  fixes serializeFs :: "'fs \<Rightarrow> json" and uid utext aid :: jsstring
    and parse fileSystem projectId closureMessages outcome st
  defines "um \<equiv> userMessageOf uid utext"
  defines "final \<equiv> sendMessage parse serializeFs fileSystem projectId closureMessages uid aid utext outcome st"
  shows "\<exists>xs. effects final =
            effects st @
              [SetMessages (messages st @ [um]), SetStatus (lit ''streaming''),
               Fetch (requestOf serializeFs fileSystem projectId closureMessages um)]
              @ map SetMessages xs @ [SetStatus (status final)]
          \<and> updatesFrom aid (messages st @ [um]) xs
          \<and> messages final = last ((messages st @ [um]) # xs)
          \<and> status final = (if completes outcome then lit ''idle'' else lit ''error'')
          \<and> (requestFails outcome \<longrightarrow> xs = [])"
proof -
  let ?st3 = "requested serializeFs fileSystem projectId closureMessages uid utext st"
  have early: ?thesis if f: "final = setStatus (lit ''error'') ?st3"
    and c: "\<not> completes outcome"
    by (rule exI [of _ "[]"]) (use f c in \<open>simp add: setStatus_def requested_simps um_def\<close>)
  show ?thesis
  proof (cases outcome)
    case FetchRejects
    then show ?thesis by (intro early) (simp_all add: final_def sendMessage_def)
  next
    case (Response ok body)
    consider (notok) "\<not> ok" | (nobody) "ok" "body = None"
      | (stream) chunks fin where "ok" "body = Some (chunks, fin)"
      by (cases body) auto
    then show ?thesis
    proof cases
      case notok
      then show ?thesis using Response
        by (intro early) (simp_all add: final_def sendMessage_def)
    next
      case nobody
      then show ?thesis using Response
        by (intro early) (simp_all add: final_def sendMessage_def)
    next
      case (stream chunks fin)
      note ok = stream(1) and body = stream(2)
      let ?acc = "foldl (\<lambda>a chunk. handleChunk parse aid chunk a) (initialVars, ?st3) chunks"
      have "streamed aid ?st3 (snd ?acc)"
        using streamed_chunks [of aid "(initialVars, ?st3)" parse chunks] by simp
      then obtain xs where xs: "effects (snd ?acc) = effects ?st3 @ map SetMessages xs"
        "updatesFrom aid (messages ?st3) xs" "messages (snd ?acc) = last (messages ?st3 # xs)"
        "status (snd ?acc) = status ?st3"
        unfolding streamed_def by blast
      show ?thesis
      proof (cases fin)
        case ReadFails
        have f: "final = setStatus (lit ''error'') (snd ?acc)"
          using Response body ok ReadFails by (simp add: final_def sendMessage_def Let_def)
        show ?thesis
          by (rule exI [of _ xs])
            (use f xs Response body ok ReadFails in
              \<open>simp add: setStatus_def requested_simps um_def\<close>)
      next
        case StreamDone
        let ?p = "publish aid (fst ?acc) (snd ?acc)"
        have f: "final = setStatus (lit ''idle'') ?p"
          using Response body ok StreamDone by (simp add: final_def sendMessage_def Let_def)
        have "streamed aid (snd ?acc) ?p" by (rule streamed_publish)
        then obtain ys where ys: "effects ?p = effects (snd ?acc) @ map SetMessages ys"
          "updatesFrom aid (messages (snd ?acc)) ys" "messages ?p = last (messages (snd ?acc) # ys)"
          "status ?p = status (snd ?acc)"
          unfolding streamed_def by blast
        have u: "updatesFrom aid (messages ?st3) (xs @ ys)"
          using xs(2,3) ys(2) by (simp add: updatesFrom_append)
        have m: "messages ?p = last (messages ?st3 # (xs @ ys))"
          using xs(3) ys(3) by (cases ys) simp_all
        show ?thesis
          by (rule exI [of _ "xs @ ys"])
            (use f xs(1) ys(1) u m Response body ok StreamDone in
              \<open>simp add: setStatus_def requested_simps um_def\<close>)
      qed
    qed
  qed
qed



text \<open>
  Claim C8, as amended. The user message is appended and the status set to
  \<open>"streaming"\<close> before the request is made. If the request fails (\<open>fetch\<close> rejects,
  the response is not ok, or it has no reader) the status becomes \<open>"error"\<close> and the list
  is the previous list with the user message appended. If reading the stream throws, the
  status becomes \<open>"error"\<close> and the user message is still in the list when its id differs
  from the assistant message's (the assistant updates remove entries by id). A stream that
  ends normally leaves the status \<open>"idle"\<close>, also when parsing one of its lines threw.
\<close>

theorem sendMessage_outer_failure_keeps_user_message:
  fixes serializeFs :: "'fs \<Rightarrow> json" and uid utext aid :: jsstring
    and parse fileSystem projectId closureMessages outcome st
  defines "final \<equiv> sendMessage parse serializeFs fileSystem projectId closureMessages uid aid utext outcome st"
  shows "take 3 (drop (length (effects st)) (effects final)) =
           [SetMessages (messages st @ [userMessageOf uid utext]),
            SetStatus (lit ''streaming''),
            Fetch (requestOf serializeFs fileSystem projectId closureMessages (userMessageOf uid utext))]
    \<and> (requestFails outcome \<longrightarrow>
          status final = lit ''error'' \<and> messages final = messages st @ [userMessageOf uid utext])
    \<and> (readFails outcome \<longrightarrow>
          status final = lit ''error''
          \<and> (uid \<noteq> aid \<longrightarrow> userMessageOf uid utext \<in> set (messages final)))
    \<and> (completes outcome \<longrightarrow> status final = lit ''idle'')"
proof -
  let ?um = "userMessageOf uid utext"
  from sendMessage_shape [of parse serializeFs fileSystem projectId closureMessages uid aid utext outcome st]
  obtain xs where e: "effects final =
            effects st @
              [SetMessages (messages st @ [?um]), SetStatus (lit ''streaming''),
               Fetch (requestOf serializeFs fileSystem projectId closureMessages ?um)]
              @ map SetMessages xs @ [SetStatus (status final)]"
    and u: "updatesFrom aid (messages st @ [?um]) xs"
    and m: "messages final = last ((messages st @ [?um]) # xs)"
    and s: "status final = (if completes outcome then lit ''idle'' else lit ''error'')"
    and r: "requestFails outcome \<longrightarrow> xs = []"
    unfolding final_def by blast
  have c1: "take 3 (drop (length (effects st)) (effects final)) =
           [SetMessages (messages st @ [?um]), SetStatus (lit ''streaming''),
            Fetch (requestOf serializeFs fileSystem projectId closureMessages ?um)]"
    by (simp add: e)
  have nc1: "\<not> completes outcome" if "requestFails outcome"
    using that by (cases outcome rule: completes.cases) auto
  have nc2: "\<not> completes outcome" if "readFails outcome"
    using that by (cases outcome rule: completes.cases) auto
  have c2: "requestFails outcome \<longrightarrow>
          status final = lit ''error'' \<and> messages final = messages st @ [?um]"
    using s m r nc1 by auto
  have keep: "?um \<in> set (messages final)" if "uid \<noteq> aid"
  proof -
    have "?um \<in> set (messages st @ [?um])" by simp
    moreover have "mid ?um \<noteq> aid" using that by (simp add: userMessageOf_def)
    ultimately show ?thesis unfolding m by (rule updatesFrom_keeps [OF u])
  qed
  have c3: "readFails outcome \<longrightarrow>
          status final = lit ''error'' \<and> (uid \<noteq> aid \<longrightarrow> ?um \<in> set (messages final))"
    using s nc2 keep by auto
  have c4: "completes outcome \<longrightarrow> status final = lit ''idle''"
    using s by simp
  from c1 c2 c3 c4 show ?thesis by blast
qed

theorem sendMessage_outer_failure_keeps_user_message_witness:
  "status (sampleRun FetchRejects) = lit ''error''
   \<and> messages (sampleRun FetchRejects) = [userMessageOf (lit ''u1'') (lit ''hello'')]
   \<and> status (sampleRun (Response True (Some (sampleChunks, ReadFails)))) = lit ''error''
   \<and> userMessageOf (lit ''u1'') (lit ''hello'')
        \<in> set (messages (sampleRun (Response True (Some (sampleChunks, ReadFails)))))
   \<and> status (sampleRun (Response True (Some (sampleChunks, StreamDone)))) = lit ''idle''"
proof -
  have d: "lit ''u1'' \<noteq> lit ''a1''" by (simp add: lit_def)
  have m0: "messages idleChat = []" by (simp add: idleChat_def)
  show ?thesis
    using sendMessage_outer_failure_keeps_user_message
      [where parse = sampleParse and serializeFs = "\<lambda>u::unit. JObject []" and fileSystem = "()"
          and projectId = None and closureMessages = "[]" and uid = "lit ''u1''"
          and aid = "lit ''a1''" and utext = "lit ''hello''" and st = idleChat
          and outcome = "FetchRejects"]
      sendMessage_outer_failure_keeps_user_message
      [where parse = sampleParse and serializeFs = "\<lambda>u::unit. JObject []" and fileSystem = "()"
          and projectId = None and closureMessages = "[]" and uid = "lit ''u1''"
          and aid = "lit ''a1''" and utext = "lit ''hello''" and st = idleChat
          and outcome = "Response True (Some (sampleChunks, ReadFails))"]
      sendMessage_outer_failure_keeps_user_message
      [where parse = sampleParse and serializeFs = "\<lambda>u::unit. JObject []" and fileSystem = "()"
          and projectId = None and closureMessages = "[]" and uid = "lit ''u1''"
          and aid = "lit ''a1''" and utext = "lit ''hello''" and st = idleChat
          and outcome = "Response True (Some (sampleChunks, StreamDone))"]
      d m0
    by (simp add: sampleRun_def)
qed

text \<open>
  An exception that does not set the status to \<open>"error"\<close>: \<open>JSON.parse\<close> throws on the
  data line \<open>{bad\<close>, the exception is caught inside the loop, and the call ends with
  status \<open>"idle"\<close>.
\<close>

theorem sendMessage_parse_exception_counterexample:
  "sampleParse (lit ''{bad'') = None
   \<and> status (sendMessage sampleParse (\<lambda>u::unit. JObject []) () None []
              (lit ''u1'') (lit ''a1'') (lit ''hello'')
              (Response True (Some ([lit ''data: {bad'' @ [10]], StreamDone))) idleChat)
       = lit ''idle''"
  by (simp add: sampleParse_def sendMessage_def requested_def requestOf_def setMessages_def
      setStatus_def publish_def handleChunk_def handleLine_def initialVars_def idleChat_def
      startsWith_def substring_def trim_def isWhiteSpace_def lit_def Let_def)

subsection \<open>Chunks and lines\<close>

lemma splitOn_nonempty: "splitOn sep s \<noteq> []"
  by (induction s) (auto split: list.split)

lemma splitOn_append:
  "splitOn sep (x @ y) = butlast (splitOn sep x) @ splitOn sep (last (splitOn sep x) @ y)"
proof (induction x)
  case Nil
  show ?case by simp
next
  case (Cons c x)
  obtain l ls where s: "splitOn sep x = l # ls"
    using splitOn_nonempty [of sep x] by (cases "splitOn sep x") auto
  show ?case
  proof (cases "c = sep")
    case True
    then show ?thesis using Cons s by simp
  next
    case False
    show ?thesis
    proof (cases ls)
      case Nil
      then show ?thesis using Cons s False by simp
    next
      case (Cons l' ls')
      then show ?thesis using Cons.IH s False by simp
    qed
  qed
qed

lemma handleEvent_buffer:
  "handleEvent aid e (vars\<lparr>buffer := b\<rparr>, st) =
     ((fst (handleEvent aid e (vars, st)))\<lparr>buffer := b\<rparr>, snd (handleEvent aid e (vars, st)))"
proof (cases e)
  case (TextDelta d)
  then show ?thesis
    by (cases "currentTextPart vars")
       (simp_all add: Let_def publish_def assistantCopy_def partsNow_def cong: if_cong)
next
  case (ToolInputStart tcid nm)
  then show ?thesis by simp
next
  case (ToolInputDelta tcid d)
  then show ?thesis by (simp add: updateObject_def split: option.split)
next
  case (ToolInputAvailable tcid inp)
  then show ?thesis
    by (simp add: Let_def updateObject_def publish_def assistantCopy_def partsNow_def
        split: option.split cong: if_cong)
next
  case (ToolOutputAvailable tcid out)
  then show ?thesis
    by (simp add: Let_def updateObject_def publish_def assistantCopy_def partsNow_def
        split: option.split cong: if_cong)
next
  case OtherEvent
  then show ?thesis by simp
qed

lemma handleLine_buffer:
  "handleLine parse aid line (vars\<lparr>buffer := b\<rparr>, st) =
     ((fst (handleLine parse aid line (vars, st)))\<lparr>buffer := b\<rparr>,
      snd (handleLine parse aid line (vars, st)))"
  by (simp add: handleLine_def Let_def handleEvent_buffer split: option.split)

lemma foldl_handleLine_buffer:
  "foldl (\<lambda>a line. handleLine parse aid line a) (vars\<lparr>buffer := b\<rparr>, st) ls =
     ((fst (foldl (\<lambda>a line. handleLine parse aid line a) (vars, st) ls))\<lparr>buffer := b\<rparr>,
      snd (foldl (\<lambda>a line. handleLine parse aid line a) (vars, st) ls))"
proof (induction ls arbitrary: vars st)
  case Nil
  show ?case by simp
next
  case (Cons l ls)
  obtain v1 s1 where h: "handleLine parse aid l (vars, st) = (v1, s1)"
    by (cases "handleLine parse aid l (vars, st)")
  show ?case using Cons.IH [of v1 s1] h by (simp add: handleLine_buffer)
qed

lemma handleChunk_append:
  "handleChunk parse aid (c1 @ c2) acc = handleChunk parse aid c2 (handleChunk parse aid c1 acc)"
proof -
  obtain vars st where acc: "acc = (vars, st)" by (cases acc)
  let ?f = "\<lambda>a line. handleLine parse aid line a"
  let ?l1 = "splitOn 10 (buffer vars @ c1)"
  let ?l2 = "splitOn 10 (last ?l1 @ c2)"
  have sp: "splitOn 10 (buffer vars @ c1 @ c2) = butlast ?l1 @ ?l2"
    using splitOn_append [of 10 "buffer vars @ c1" c2] by simp
  have ne: "?l2 \<noteq> []" by (rule splitOn_nonempty)
  have bl: "butlast (butlast ?l1 @ ?l2) = butlast ?l1 @ butlast ?l2"
    using ne by (simp add: butlast_append)
  have la: "last (butlast ?l1 @ ?l2) = last ?l2" using ne by simp
  obtain v1 s1 where r1: "foldl ?f (vars, st) (butlast ?l1) = (v1, s1)"
    by (cases "foldl ?f (vars, st) (butlast ?l1)")
  obtain v2 s2 where r2: "foldl ?f (v1, s1) (butlast ?l2) = (v2, s2)"
    by (cases "foldl ?f (v1, s1) (butlast ?l2)")
  have first: "handleChunk parse aid c1 acc = (v1\<lparr>buffer := last ?l1\<rparr>, s1)"
    using acc r1 by (simp add: handleChunk_def Let_def foldl_handleLine_buffer)
  have second: "handleChunk parse aid c2 (v1\<lparr>buffer := last ?l1\<rparr>, s1)
                  = (v2\<lparr>buffer := last ?l2\<rparr>, s2)"
    using r2 by (simp add: handleChunk_def Let_def foldl_handleLine_buffer)
  have both: "handleChunk parse aid (c1 @ c2) acc = (v2\<lparr>buffer := last ?l2\<rparr>, s2)"
    using acc r1 r2 by (simp add: handleChunk_def Let_def sp bl la foldl_handleLine_buffer)
  show ?thesis using first second both by simp
qed

lemma foldl_handleChunk_concat:
  "chunks \<noteq> [] \<Longrightarrow>
     foldl (\<lambda>a chunk. handleChunk parse aid chunk a) acc chunks
       = handleChunk parse aid (concat chunks) acc"
proof (induction chunks arbitrary: acc)
  case Nil
  then show ?case by simp
next
  case (Cons c cs)
  show ?case
  proof (cases "cs = []")
    case True
    then show ?thesis by simp
  next
    case False
    then show ?thesis using Cons.IH [OF False] by (simp add: handleChunk_append)
  qed
qed

lemma handleChunk_initial_empty:
  "handleChunk parse aid [] (initialVars, st) = (initialVars, st)"
  by (simp add: handleChunk_def initialVars_def Let_def)

text \<open>
  The reply does not depend on how the response body is cut into chunks: the lines that
  are handled, and so the whole result of \<open>sendMessage\<close>, are those of the concatenated
  text.
\<close>

theorem sendMessage_independent_of_chunking:
  "sendMessage parse serializeFs fileSystem projectId closureMessages uid aid utext
     (Response ok (Some (chunks, fin))) st
   = sendMessage parse serializeFs fileSystem projectId closureMessages uid aid utext
     (Response ok (Some ([concat chunks], fin))) st"
proof (cases "chunks = []")
  case True
  then show ?thesis by (simp add: sendMessage_def Let_def handleChunk_initial_empty)
next
  case False
  then show ?thesis by (simp add: sendMessage_def Let_def foldl_handleChunk_concat)
qed

lemma splitOn_no_separator: "sep \<notin> set s \<Longrightarrow> splitOn sep s = [s]"
  by (induction s) auto

text \<open>
  Text without a line feed is only buffered: a last line that does not end in a line feed
  stays in the buffer and is never handled.
\<close>

theorem handleChunk_keeps_unterminated_line:
  assumes "10 \<notin> set (buffer (fst acc))" and "10 \<notin> set chunk"
  shows "handleChunk parse aid chunk acc = ((fst acc)\<lparr>buffer := buffer (fst acc) @ chunk\<rparr>, snd acc)"
  using assms by (simp add: handleChunk_def Let_def splitOn_no_separator)

theorem handleChunk_keeps_unterminated_line_witness:
  "handleChunk sampleParse (lit ''a1'') (lit ''data: {bad'') (initialVars, idleChat)
     = (initialVars\<lparr>buffer := lit ''data: {bad''\<rparr>, idleChat)"
proof -
  have a: "10 \<notin> set (buffer (fst (initialVars, idleChat)))" by (simp add: initialVars_def)
  have b: "10 \<notin> set (lit ''data: {bad'')" by (simp add: lit_def)
  show ?thesis
    using handleChunk_keeps_unterminated_line [OF a b, of sampleParse "lit ''a1''"]
    by (simp add: initialVars_def)
qed

section \<open>Properties: The Virtual File Store\<close>

subsection \<open>Every reachable store is well formed\<close>

lemma wfNode_Dir:
  "wfNode (Dir cs) \<longleftrightarrow>
     distinct (map fst cs) \<and> (\<forall>kv \<in> set cs. isName (fst kv) \<and> wfNode (snd kv))"
  by (auto simp add: list_all_iff)

declare wfNode.simps(2) [simp del]

lemma set_update_subset: "set (AList.update k v al) \<subseteq> insert (k, v) (set al)"
  by (induction al) auto

lemma set_delete_subset: "set (AList.delete k al) \<subseteq> set al"
  by (induction al) auto

lemma wfNode_update:
  assumes "wfNode (Dir cs)" "wfNode v" "isName k"
  shows "wfNode (Dir (AList.update k v cs))"
proof -
  have "distinct (map fst (AList.update k v cs))"
    using assms(1) by (simp add: wfNode_Dir distinct_update)
  moreover have "\<forall>kv \<in> set (AList.update k v cs). isName (fst kv) \<and> wfNode (snd kv)"
    using assms set_update_subset [of k v cs] by (auto simp add: wfNode_Dir)
  ultimately show ?thesis by (simp add: wfNode_Dir)
qed

lemma wfNode_delete:
  assumes "wfNode (Dir cs)"
  shows "wfNode (Dir (AList.delete k cs))"
proof -
  have "distinct (map fst (AList.delete k cs))"
    using assms by (simp add: wfNode_Dir distinct_delete)
  moreover have "\<forall>kv \<in> set (AList.delete k cs). isName (fst kv) \<and> wfNode (snd kv)"
    using assms set_delete_subset [of k cs] by (auto simp add: wfNode_Dir)
  ultimately show ?thesis by (simp add: wfNode_Dir)
qed

lemma wfNode_append:
  assumes "wfNode (Dir cs)" "wfNode v" "isName k" "map_of cs k = None"
  shows "wfNode (Dir (cs @ [(k, v)]))"
proof -
  have "k \<notin> fst ` set cs" using assms(4) by (simp add: map_of_eq_None_iff)
  then show ?thesis using assms(1,2,3) by (auto simp add: wfNode_Dir)
qed

lemma wfNode_child:
  assumes "wfNode (Dir cs)" "map_of cs k = Some ch"
  shows "wfNode ch" and "isName k"
proof -
  from assms(2) have "(k, ch) \<in> set cs" by (rule map_of_SomeD)
  then show "wfNode ch" and "isName k" using assms(1) by (auto simp add: wfNode_Dir)
qed

lemma wfNode_insertAt:
  "wfNode n \<Longrightarrow> wfNode x \<Longrightarrow> validPath p \<Longrightarrow> insertAt mk n p x = Inr n' \<Longrightarrow> wfNode n'"
proof (induction mk n p x arbitrary: n' rule: insertAt.induct)
  case (1 mk n x)
  then show ?case by simp
next
  case (2 mk c s ss x)
  then show ?case by simp
next
  case (3 mk cs s ss x)
  from "3.prems"(3) have s: "isName s" and ss: "validPath ss" by (simp_all add: validPath_def)
  show ?case
  proof (cases "map_of cs s")
    case (Some ch)
    with "3.prems"(4) obtain ch' where r: "insertAt mk ch ss x = Inr ch'"
      and n': "n' = Dir (AList.update s ch' cs)"
      by (auto split: sum.splits)
    have "wfNode ch" using "3.prems"(1) Some by (rule wfNode_child)
    then have "wfNode ch'" using "3.IH"(2) [OF Some _ "3.prems"(2) ss r] by simp
    then show ?thesis unfolding n' using "3.prems"(1) s by (simp add: wfNode_update)
  next
    case None
    show ?thesis
    proof (cases "ss = []")
      case True
      with None "3.prems"(4) have "n' = Dir (cs @ [(s, x)])" by simp
      then show ?thesis using "3.prems"(1,2) s None by (simp add: wfNode_append)
    next
      case False
      with None "3.prems"(4) obtain d where mk: mk and r: "insertAt mk (Dir []) ss x = Inr d"
        and n': "n' = Dir (cs @ [(s, d)])"
        by (auto split: sum.splits if_splits)
      have "wfNode (Dir [])" by (simp add: wfNode_Dir)
      then have "wfNode d" using "3.IH"(1) [OF None False mk _ "3.prems"(2) ss r] by simp
      then show ?thesis unfolding n' using "3.prems"(1) s None by (simp add: wfNode_append)
    qed
  qed
qed

lemma wfNode_writeAt:
  "wfNode n \<Longrightarrow> writeAt n p c = Inr n' \<Longrightarrow> wfNode n'"
proof (induction n p c arbitrary: n' rule: writeAt.induct)
  case (1 old c)
  then show ?case by auto
next
  case (2 cs c)
  then show ?case by simp
next
  case (3 old s ss c)
  then show ?case by simp
next
  case (4 cs s ss c)
  from "4.prems"(2) obtain ch ch' where c: "map_of cs s = Some ch"
    and r: "writeAt ch ss c = Inr ch'" and n': "n' = Dir (AList.update s ch' cs)"
    by (auto split: option.splits sum.splits)
  have "wfNode ch" and s: "isName s" using "4.prems"(1) c by (rule wfNode_child)+
  then have "wfNode ch'" using "4.IH" [OF c _ r] by simp
  then show ?case unfolding n' using "4.prems"(1) s by (simp add: wfNode_update)
qed

lemma wfNode_removeAt:
  "wfNode n \<Longrightarrow> removeAt n p = Inr n' \<Longrightarrow> wfNode n'"
proof (induction n p arbitrary: n' rule: removeAt.induct)
  case (1 n)
  then show ?case by simp
next
  case (2 c s ss)
  then show ?case by simp
next
  case (3 cs s ss)
  from "3.prems"(2) obtain ch where c: "map_of cs s = Some ch"
    by (auto split: option.splits)
  show ?case
  proof (cases "ss = []")
    case True
    with c "3.prems"(2) have "n' = Dir (AList.delete s cs)" by simp
    then show ?thesis using "3.prems"(1) by (simp only: wfNode_delete)
  next
    case False
    with c "3.prems"(2) obtain ch' where r: "removeAt ch ss = Inr ch'"
      and n': "n' = Dir (AList.update s ch' cs)"
      by (auto split: sum.splits)
    have "wfNode ch" and s: "isName s" using "3.prems"(1) c by (rule wfNode_child)+
    then have "wfNode ch'" using "3.IH" [OF c False _ r] by simp
    then show ?thesis unfolding n' using "3.prems"(1) s by (simp add: wfNode_update)
  qed
qed

lemma isDir_insertAt:
  "insertAt mk (Dir cs) p x = Inr n' \<Longrightarrow> \<exists>cs'. n' = Dir cs'"
  by (cases p) (auto split: option.splits sum.splits if_splits)

lemma isDir_writeAt:
  "writeAt (Dir cs) p c = Inr n' \<Longrightarrow> \<exists>cs'. n' = Dir cs'"
  by (cases p) (auto split: option.splits sum.splits)

lemma isDir_removeAt:
  "removeAt (Dir cs) p = Inr n' \<Longrightarrow> \<exists>cs'. n' = Dir cs'"
  by (cases p) (auto split: option.splits sum.splits if_splits)

lemma wfNode_lookup:
  "wfNode n \<Longrightarrow> lookup n p = Some m \<Longrightarrow> wfNode m"
proof (induction n p rule: lookup.induct)
  case (1 n)
  then show ?case by simp
next
  case (2 c s ss)
  then show ?case by simp
next
  case (3 cs s ss)
  from "3.prems"(2) obtain ch where c: "map_of cs s = Some ch" and l: "lookup ch ss = Some m"
    by (auto split: option.splits)
  have "wfNode ch" using "3.prems"(1) c by (rule wfNode_child)
  then show ?case using "3.IH" [OF c _ l] by simp
qed

lemma wfStore_applyOp:
  assumes "wfStore root" "applyOp root opn = Inr root'"
  shows "wfStore root'"
proof -
  from assms(1) obtain cs where root: "root = Dir cs" and wf: "wfNode root"
    by (auto simp add: wfStore_def split: node.splits)
  show ?thesis
  proof (cases opn)
    case (Create p c)
    with assms(2) have v: "validPath p" and i: "insertAt True root p (File c) = Inr root'"
      by (auto simp add: create_def split: if_splits)
    have "wfNode root'" using wf _ v i by (rule wfNode_insertAt) simp
    moreover obtain cs' where "root' = Dir cs'" using i isDir_insertAt root by blast
    ultimately show ?thesis by (simp add: wfStore_def)
  next
    case (Update p c)
    with assms(2) have w: "writeAt root p c = Inr root'" by (simp add: update_def)
    have "wfNode root'" using wf w by (rule wfNode_writeAt)
    moreover obtain cs' where "root' = Dir cs'" using w isDir_writeAt root by blast
    ultimately show ?thesis by (simp add: wfStore_def)
  next
    case (Delete p)
    with assms(2) have r: "removeAt root p = Inr root'" by (simp add: delete_def)
    have "wfNode root'" using wf r by (rule wfNode_removeAt)
    moreover obtain cs' where "root' = Dir cs'" using r isDir_removeAt root by blast
    ultimately show ?thesis by (simp add: wfStore_def)
  next
    case (Rename p q)
    with assms(2) obtain sub root1 where l: "lookup root p = Some sub"
      and v: "validPath q" and r: "removeAt root p = Inr root1"
      and i: "insertAt True root1 q sub = Inr root'"
      by (auto simp add: rename_def split: option.splits if_splits sum.splits)
    have s: "wfNode sub" using wf l by (rule wfNode_lookup)
    have w1: "wfNode root1" using wf r by (rule wfNode_removeAt)
    obtain cs1 where d1: "root1 = Dir cs1" using r isDir_removeAt root by blast
    have "wfNode root'" using w1 s v i by (rule wfNode_insertAt)
    moreover obtain cs' where "root' = Dir cs'" using i isDir_insertAt d1 by blast
    ultimately show ?thesis by (simp add: wfStore_def)
  qed
qed

lemma wfStore_applyOps: "wfStore root \<Longrightarrow> wfStore (applyOps root ops)"
proof (induction ops arbitrary: root)
  case Nil
  then show ?case by simp
next
  case (Cons opn ops)
  show ?case
  proof (cases "applyOp root opn")
    case (Inl e)
    then show ?thesis using Cons by simp
  next
    case (Inr root')
    then have "wfStore root'" using Cons.prems wfStore_applyOp by blast
    then show ?thesis using Cons.IH Inr by simp
  qed
qed

lemma wfStore_empty: "wfStore emptyStore"
  by (simp add: wfStore_def emptyStore_def wfNode_Dir)

subsection \<open>Serialization round trip\<close>

lemma allSome_map:
  assumes "\<And>kv. kv \<in> set cs \<Longrightarrow> h (snd kv) = Some (snd kv)"
  shows "allSome (map (\<lambda>kv. (fst kv, h (snd kv))) cs) = Some cs"
  using assms
proof (induction cs)
  case Nil
  then show ?case by simp
next
  case (Cons kv cs)
  obtain k v where kv: "kv = (k, v)" by (cases kv)
  have hv: "h v = Some v" using Cons.prems [of kv] kv by simp
  have "allSome (map (\<lambda>kv. (fst kv, h (snd kv))) cs) = Some cs"
    using Cons.IH Cons.prems by simp
  then show ?case using kv hv by simp
qed

lemma map_prod_twice:
  "map (map_prod id g) (map (map_prod id f) cs) = map (\<lambda>kv. (fst kv, g (f (snd kv)))) cs"
  by (induction cs) auto

lemma fromJson_toJson: "wfNode n \<Longrightarrow> fromJson (toJson n) = Some n"
proof (induction n)
  case (File c)
  show ?case by simp
next
  case (Dir cs)
  have keys: "map fst (map (map_prod id toJson) cs) = map fst cs"
    by (induction cs) auto
  have ch: "fromJson (toJson (snd kv)) = Some (snd kv)" if "kv \<in> set cs" for kv
  proof -
    obtain k v where kv: "kv = (k, v)" by (cases kv)
    have "wfNode v" using Dir.prems that kv by (auto simp add: wfNode_Dir)
    then show ?thesis using Dir.IH [of kv v] that kv by simp
  qed
  have "allSome (map (\<lambda>kv. (fst kv, fromJson (toJson (snd kv)))) cs) = Some cs"
    using ch by (rule allSome_map)
  then have a: "allSome (map (map_prod id fromJson) (map (map_prod id toJson) cs)) = Some cs"
    by (simp only: map_prod_twice)
  have d: "distinct (map fst cs)" and l: "list_all isName (map fst cs)"
    using Dir.prems by (auto simp add: wfNode_Dir list_all_iff)
  show ?case
    unfolding toJson.simps fromJson.simps keys using a d l by simp
qed

text \<open>
  Claim C4. For every store reached from the empty store by a finite sequence of create,
  update, delete and rename operations, \<open>deserialize (serialize S)\<close> is the store \<open>S\<close>
  itself, children in their order; so \<open>list\<close> at every directory path and \<open>read\<close> at every
  file path give what they give on \<open>S\<close>.
\<close>

theorem store_roundtrip:
  "deserialize (serialize (applyOps emptyStore ops)) = Some (applyOps emptyStore ops)
   \<and> (case deserialize (serialize (applyOps emptyStore ops)) of
         None \<Rightarrow> False
       | Some root' \<Rightarrow>
           (\<forall>p. listDir root' p = listDir (applyOps emptyStore ops) p
                \<and> read root' p = read (applyOps emptyStore ops) p))"
proof -
  have wf: "wfStore (applyOps emptyStore ops)"
    using wfStore_empty by (rule wfStore_applyOps)
  then obtain cs where d: "applyOps emptyStore ops = Dir cs"
    by (auto simp add: wfStore_def split: node.splits)
  have "fromJson (toJson (applyOps emptyStore ops)) = Some (applyOps emptyStore ops)"
    using wf by (simp add: wfStore_def fromJson_toJson)
  then have "deserialize (serialize (applyOps emptyStore ops)) = Some (applyOps emptyStore ops)"
    using d by (simp add: deserialize_def serialize_def)
  then show ?thesis by simp
qed

subsection \<open>Renaming a file\<close>

lemma kindAt_simps [simp]:
  "kindAt (File c) [] = IsFile c"
  "kindAt (Dir cs) [] = IsDir"
  "kindAt (File c) (s # q) = Absent"
  "kindAt (Dir cs) (s # q) = (case map_of cs s of None \<Rightarrow> Absent | Some ch \<Rightarrow> kindAt ch q)"
  by (simp_all add: kindAt_def split: option.split)

lemma read_kindAt:
  "read root p =
     (case kindAt root p of Absent \<Rightarrow> Inl NotFound | IsDir \<Rightarrow> Inl NotAFile | IsFile c \<Rightarrow> Inr c)"
  by (simp add: read_def kindAt_def split: option.split node.split)

lemma kindAt_Absent: "kindAt n q = Absent \<longleftrightarrow> lookup n q = None"
  by (simp add: kindAt_def split: option.split node.split)

lemma kindAt_IsFile: "kindAt n q = IsFile c \<longleftrightarrow> lookup n q = Some (File c)"
  by (simp add: kindAt_def split: option.split node.split)

lemma kindAt_IsDir: "kindAt n q = IsDir \<longleftrightarrow> (\<exists>cs. lookup n q = Some (Dir cs))"
  by (simp add: kindAt_def split: option.split node.split)

lemma lookup_append:
  "lookup n (p @ r) = (case lookup n p of None \<Rightarrow> None | Some m \<Rightarrow> lookup m r)"
  by (induction n p rule: lookup.induct) (simp_all split: option.split)

lemma removeAt_file:
  "lookup n p = Some (File c) \<Longrightarrow> p \<noteq> [] \<Longrightarrow>
     \<exists>n'. removeAt n p = Inr n'
        \<and> (\<forall>q. kindAt n' q = (if q = p then Absent else kindAt n q))
        \<and> (\<forall>q. \<not> prefix q p \<and> \<not> prefix p q \<longrightarrow> lookup n' q = lookup n q)"
proof (induction p arbitrary: n)
  case Nil
  then show ?case by simp
next
  case (Cons s ss)
  from Cons.prems(1) obtain cs ch where n: "n = Dir cs" and c: "map_of cs s = Some ch"
    and l: "lookup ch ss = Some (File c)"
    by (cases n) (auto split: option.splits)
  show ?case
  proof (cases "ss = []")
    case True
    with l have ch: "ch = File c" by simp
    let ?n' = "Dir (AList.delete s cs)"
    have r: "removeAt n (s # ss) = Inr ?n'" using n c True by simp
    have k: "kindAt ?n' q = (if q = s # ss then Absent else kindAt n q)" for q
    proof (cases q)
      case Nil
      then show ?thesis using n by simp
    next
      case (Cons s' q')
      show ?thesis
      proof (cases "s' = s")
        case True
        then show ?thesis using Cons n c ch \<open>ss = []\<close>
          by (cases q') (simp_all add: delete_conv')
      next
        case False
        then show ?thesis using Cons n by (simp add: delete_conv')
      qed
    qed
    have lk: "lookup ?n' q = lookup n q" if "\<not> prefix q (s # ss)" "\<not> prefix (s # ss) q" for q
    proof (cases q)
      case Nil
      then show ?thesis using that by simp
    next
      case (Cons s' q')
      with that True have "s' \<noteq> s" by auto
      then show ?thesis using Cons n by (simp add: delete_conv')
    qed
    show ?thesis using r k lk by blast
  next
    case False
    from Cons.IH [OF l False] obtain ch' where r': "removeAt ch ss = Inr ch'"
      and k': "\<And>q. kindAt ch' q = (if q = ss then Absent else kindAt ch q)"
      and lk': "\<And>q. \<not> prefix q ss \<and> \<not> prefix ss q \<Longrightarrow> lookup ch' q = lookup ch q"
      by blast
    let ?n' = "Dir (AList.update s ch' cs)"
    have r: "removeAt n (s # ss) = Inr ?n'" using n c False r' by simp
    have k: "kindAt ?n' q = (if q = s # ss then Absent else kindAt n q)" for q
    proof (cases q)
      case Nil
      then show ?thesis using n by simp
    next
      case (Cons s' q')
      then show ?thesis using n c k' [of q'] by (auto simp add: update_conv')
    qed
    have lk: "lookup ?n' q = lookup n q" if "\<not> prefix q (s # ss)" "\<not> prefix (s # ss) q" for q
    proof (cases q)
      case Nil
      then show ?thesis using that by simp
    next
      case (Cons s' q')
      show ?thesis
      proof (cases "s' = s")
        case True
        with that Cons have "\<not> prefix q' ss \<and> \<not> prefix ss q'" by simp
        then show ?thesis using Cons True n c lk' [of q'] by (simp add: update_conv')
      next
        case False
        then show ?thesis using Cons n by (simp add: update_conv')
      qed
    qed
    show ?thesis using r k lk by blast
  qed
qed

lemma insertAt_fresh:
  "lookup n p = None \<Longrightarrow> (\<forall>q c. strict_prefix q p \<longrightarrow> lookup n q \<noteq> Some (File c)) \<Longrightarrow>
     \<exists>n'. insertAt True n p x = Inr n'
        \<and> lookup n' p = Some x
        \<and> (\<forall>q. strict_prefix q p \<longrightarrow> kindAt n' q = IsDir)
        \<and> (\<forall>q. \<not> prefix q p \<and> \<not> prefix p q \<longrightarrow> lookup n' q = lookup n q)"
proof (induction p arbitrary: n)
  case Nil
  then show ?case by simp
next
  case (Cons s ss)
  have "lookup n [] \<noteq> Some (File c)" for c
    using Cons.prems(2) [rule_format, of "[]" c] by simp
  then obtain cs where n: "n = Dir cs" by (cases n) auto
  have top: "kindAt (Dir cs') [] = IsDir" for cs' by simp
  show ?case
  proof (cases "map_of cs s")
    case None
    show ?thesis
    proof (cases "ss = []")
      case True
      let ?n' = "Dir (cs @ [(s, x)])"
      have r: "insertAt True n (s # ss) x = Inr ?n'" using n None True by simp
      have m: "map_of (cs @ [(s, x)]) s' = (if s' = s then Some x else map_of cs s')" for s'
        using None by (simp add: map_add_def split: option.split)
      have l: "lookup ?n' (s # ss) = Some x" using True m by simp
      have d: "kindAt ?n' q = IsDir" if "strict_prefix q (s # ss)" for q
        using that True by (cases q) (simp_all add: strict_prefix_def)
      have lk: "lookup ?n' q = lookup n q" if "\<not> prefix q (s # ss)" "\<not> prefix (s # ss) q" for q
      proof (cases q)
        case Nil
        then show ?thesis using that by simp
      next
        case (Cons s' q')
        with that True have "s' \<noteq> s" by auto
        then show ?thesis using Cons n m by simp
      qed
      show ?thesis using r l d lk by blast
    next
      case False
      have e: "lookup (Dir []) ss = None" using False by (cases ss) simp_all
      have f: "\<forall>q c. strict_prefix q ss \<longrightarrow> lookup (Dir []) q \<noteq> Some (File c)"
      proof (intro allI impI)
        fix q c assume "strict_prefix q ss"
        show "lookup (Dir []) q \<noteq> Some (File c)" by (cases q) simp_all
      qed
      from Cons.IH [OF e f] obtain d where r': "insertAt True (Dir []) ss x = Inr d"
        and l': "lookup d ss = Some x"
        and d': "\<And>q. strict_prefix q ss \<Longrightarrow> kindAt d q = IsDir"
        by blast
      let ?n' = "Dir (cs @ [(s, d)])"
      have r: "insertAt True n (s # ss) x = Inr ?n'" using n None False r' by simp
      have m: "map_of (cs @ [(s, d)]) s' = (if s' = s then Some d else map_of cs s')" for s'
        using None by (simp add: map_add_def split: option.split)
      have l: "lookup ?n' (s # ss) = Some x" using l' m by simp
      have dd: "kindAt ?n' q = IsDir" if "strict_prefix q (s # ss)" for q
      proof (cases q)
        case Nil
        then show ?thesis by simp
      next
        case (Cons s' q')
        with that have "s' = s" and "strict_prefix q' ss" by (auto simp add: strict_prefix_def)
        then show ?thesis using Cons m d' [of q'] by simp
      qed
      have lk: "lookup ?n' q = lookup n q" if "\<not> prefix q (s # ss)" "\<not> prefix (s # ss) q" for q
      proof (cases q)
        case Nil
        then show ?thesis using that by simp
      next
        case (Cons s' q')
        show ?thesis
        proof (cases "s' = s")
          case True
          have "lookup d q' = None"
          proof -
            from that Cons True have np: "\<not> prefix q' ss" and nq: "\<not> prefix ss q'" by simp_all
            have "lookup (Dir []) q' = None" using np by (cases q') simp_all
            moreover have "lookup d q' = lookup (Dir []) q'"
              using Cons.IH [OF e f] r' np nq by auto
            ultimately show ?thesis by simp
          qed
          then show ?thesis using Cons True n None m by simp
        next
          case False
          then show ?thesis using Cons n m by simp
        qed
      qed
      show ?thesis using r l dd lk by blast
    qed
  next
    case (Some ch)
    have e: "lookup ch ss = None" using Cons.prems(1) n Some by simp
    have f: "\<forall>q c. strict_prefix q ss \<longrightarrow> lookup ch q \<noteq> Some (File c)"
    proof (intro allI impI)
      fix q c assume "strict_prefix q ss"
      then have "strict_prefix (s # q) (s # ss)" by (simp add: strict_prefix_def)
      then have "lookup n (s # q) \<noteq> Some (File c)" using Cons.prems(2) by blast
      then show "lookup ch q \<noteq> Some (File c)" using n Some by simp
    qed
    from Cons.IH [OF e f] obtain ch' where r': "insertAt True ch ss x = Inr ch'"
      and l': "lookup ch' ss = Some x"
      and d': "\<And>q. strict_prefix q ss \<Longrightarrow> kindAt ch' q = IsDir"
      and lk': "\<And>q. \<not> prefix q ss \<and> \<not> prefix ss q \<Longrightarrow> lookup ch' q = lookup ch q"
      by blast
    let ?n' = "Dir (AList.update s ch' cs)"
    have r: "insertAt True n (s # ss) x = Inr ?n'" using n Some r' by simp
    have l: "lookup ?n' (s # ss) = Some x" using l' by (simp add: update_conv')
    have dd: "kindAt ?n' q = IsDir" if "strict_prefix q (s # ss)" for q
    proof (cases q)
      case Nil
      then show ?thesis by simp
    next
      case (Cons s' q')
      with that have "s' = s" and "strict_prefix q' ss" by (auto simp add: strict_prefix_def)
      then show ?thesis using Cons d' [of q'] by (simp add: update_conv')
    qed
    have lk: "lookup ?n' q = lookup n q" if "\<not> prefix q (s # ss)" "\<not> prefix (s # ss) q" for q
    proof (cases q)
      case Nil
      then show ?thesis using that by simp
    next
      case (Cons s' q')
      show ?thesis
      proof (cases "s' = s")
        case True
        with that Cons have "\<not> prefix q' ss \<and> \<not> prefix ss q'" by simp
        then show ?thesis using Cons True n Some lk' [of q'] by (simp add: update_conv')
      next
        case False
        then show ?thesis using Cons n by (simp add: update_conv')
      qed
    qed
    show ?thesis using r l dd lk by blast
  qed
qed

text \<open>
  Claim C6, as amended. For every store with a file at \<open>old\<close>, no node at \<open>new\<close> and no
  file at an ancestor of \<open>new\<close>, \<open>rename\<close> succeeds; afterwards \<open>read new\<close> returns the
  file's content and \<open>read old\<close> fails with NotFound; every path other than \<open>old\<close>, \<open>new\<close>
  and the ancestors of \<open>new\<close> reads as before; and every path that is neither above nor
  below \<open>old\<close> or \<open>new\<close> resolves to the same node as before.
\<close>

theorem rename_file_moves_content:
  assumes isfile: "lookup root old = Some (File c)"
    and isfree: "lookup root new = None"
    and okpath: "validPath new"
    and nofile: "\<forall>q c'. strict_prefix q new \<longrightarrow> lookup root q \<noteq> Some (File c')"
  shows "\<exists>root'. rename root old new = Inr root'
           \<and> read root' new = Inr c
           \<and> read root' old = Inl NotFound
           \<and> (\<forall>p. p \<noteq> old \<and> p \<noteq> new \<and> \<not> strict_prefix p new \<longrightarrow> read root' p = read root p)
           \<and> (\<forall>p. \<not> prefix p old \<and> \<not> prefix old p \<and> \<not> prefix p new \<and> \<not> prefix new p
                  \<longrightarrow> lookup root' p = lookup root p)"
proof -
  have new_ne: "new \<noteq> []" using isfree by auto
  have neq: "old \<noteq> new" using isfile isfree by auto
  have not_below: "\<not> prefix old new"
  proof
    assume "prefix old new"
    then have "strict_prefix old new" using neq by (simp add: strict_prefix_def)
    then show False using nofile isfile by blast
  qed
  have not_above: "\<not> prefix new old"
  proof
    assume "prefix new old"
    then obtain r where "old = new @ r" by (auto simp add: prefix_def)
    then have "lookup root old = None" using isfree by (simp add: lookup_append)
    then show False using isfile by simp
  qed
  have old_ne: "old \<noteq> []" using not_below by auto
  from removeAt_file [OF isfile old_ne] obtain root1 where
    r1: "removeAt root old = Inr root1"
    and k1: "\<And>q. kindAt root1 q = (if q = old then Absent else kindAt root q)"
    and l1: "\<And>q. \<not> prefix q old \<and> \<not> prefix old q \<Longrightarrow> lookup root1 q = lookup root q"
    by blast
  have free1: "lookup root1 new = None"
    using k1 [of new] isfree by (simp add: kindAt_Absent [symmetric])
  have nofile1: "\<forall>q c'. strict_prefix q new \<longrightarrow> lookup root1 q \<noteq> Some (File c')"
  proof (intro allI impI)
    fix q c' assume sp: "strict_prefix q new"
    have "kindAt root q \<noteq> IsFile c'" using nofile sp by (simp add: kindAt_IsFile)
    then have "kindAt root1 q \<noteq> IsFile c'" using k1 [of q] by (simp split: if_splits)
    then show "lookup root1 q \<noteq> Some (File c')" by (simp add: kindAt_IsFile)
  qed
  from insertAt_fresh [OF free1 nofile1, of "File c"] obtain root' where
    r2: "insertAt True root1 new (File c) = Inr root'"
    and at_new: "lookup root' new = Some (File c)"
    and l2: "\<And>q. \<not> prefix q new \<and> \<not> prefix new q \<Longrightarrow> lookup root' q = lookup root1 q"
    by blast
  have res: "rename root old new = Inr root'"
    using isfile isfree okpath not_below r1 r2 by (simp add: rename_def)
  have c1: "read root' new = Inr c" using at_new by (simp add: read_def)
  have "lookup root' old = lookup root1 old" using not_below not_above by (intro l2) simp
  moreover have "lookup root1 old = None" using k1 [of old] by (simp add: kindAt_Absent [symmetric])
  ultimately have c2: "read root' old = Inl NotFound" by (simp add: read_def)
  have c3: "read root' p = read root p" if "p \<noteq> old" "p \<noteq> new" "\<not> strict_prefix p new" for p
  proof (cases "prefix new p")
    case True
    then obtain r where p: "p = new @ r" by (auto simp add: prefix_def)
    with that(2) have "r \<noteq> []" by auto
    then have "lookup root' p = None" using at_new p by (cases r) (simp_all add: lookup_append)
    moreover have "lookup root p = None" using isfree p by (simp add: lookup_append)
    ultimately show ?thesis by (simp add: read_def)
  next
    case False
    moreover have "\<not> prefix p new" using that(2,3) by (simp add: strict_prefix_def)
    ultimately have "lookup root' p = lookup root1 p" by (intro l2) simp
    then have "kindAt root' p = kindAt root1 p" by (simp add: kindAt_def)
    then have "kindAt root' p = kindAt root p" using k1 [of p] that(1) by simp
    then show ?thesis by (simp add: read_kindAt)
  qed
  have c4: "lookup root' p = lookup root p"
    if "\<not> prefix p old" "\<not> prefix old p" "\<not> prefix p new" "\<not> prefix new p" for p
  proof -
    have "lookup root' p = lookup root1 p" using that(3,4) by (intro l2) simp
    also have "\<dots> = lookup root p" using that(1,2) by (intro l1) simp
    finally show ?thesis .
  qed
  from res c1 c2 c3 c4 show ?thesis by blast
qed

lemma names_simps:
  "lit ''a.txt'' \<noteq> lit ''b.txt''" "lit ''b.txt'' \<noteq> lit ''a.txt''"
  "lit ''b.txt'' \<noteq> lit ''c.txt''" "lit ''c.txt'' \<noteq> lit ''b.txt''"
  "isName (lit ''a'')" "isName (lit ''c.txt'')" "isName (lit ''c'')" "isName (lit ''b.txt'')"
  by (simp_all add: lit_def isName_def)

theorem rename_file_moves_content_witness:
  "rename nestedFile [lit ''a'', lit ''b.txt''] [lit ''a'', lit ''c.txt'']
     = Inr (Dir [(lit ''a'', Dir [(lit ''c.txt'', File (lit ''x''))])])
   \<and> (\<exists>root'. rename nestedFile [lit ''a'', lit ''b.txt''] [lit ''a'', lit ''c.txt''] = Inr root'
        \<and> read root' [lit ''a'', lit ''c.txt''] = Inr (lit ''x'')
        \<and> read root' [lit ''a'', lit ''b.txt''] = Inl NotFound)"
proof -
  have isfile: "lookup nestedFile [lit ''a'', lit ''b.txt''] = Some (File (lit ''x''))"
    by (simp add: nestedFile_def)
  have isfree: "lookup nestedFile [lit ''a'', lit ''c.txt''] = None"
    by (simp add: nestedFile_def names_simps)
  have okpath: "validPath [lit ''a'', lit ''c.txt'']"
    by (simp add: validPath_def names_simps)
  have nofile: "\<forall>q c'. strict_prefix q [lit ''a'', lit ''c.txt'']
                  \<longrightarrow> lookup nestedFile q \<noteq> Some (File c')"
  proof (intro allI impI)
    fix q c' assume "strict_prefix q [lit ''a'', lit ''c.txt'']"
    then have "q = [] \<or> q = [lit ''a'']"
      by (cases q; cases "tl q") (auto simp add: strict_prefix_def)
    then show "lookup nestedFile q \<noteq> Some (File c')" by (auto simp add: nestedFile_def)
  qed
  have ev: "rename nestedFile [lit ''a'', lit ''b.txt''] [lit ''a'', lit ''c.txt'']
     = Inr (Dir [(lit ''a'', Dir [(lit ''c.txt'', File (lit ''x''))])])"
    by (simp add: rename_def nestedFile_def validPath_def names_simps)
  from rename_file_moves_content [OF isfile isfree okpath nofile] ev show ?thesis by blast
qed

text \<open>
  Where the claim as stated fails. In \<open>twoFiles\<close> there is a file at \<open>/a.txt\<close> and no
  node at \<open>/b.txt/c\<close>, but \<open>/b.txt\<close> is a file: \<open>rename\<close> fails, and no store at all has the
  content at \<open>/b.txt/c\<close> while \<open>/b.txt\<close> reads as before. In \<open>nestedFile\<close> the rename of
  \<open>/a/b.txt\<close> to \<open>/a/c.txt\<close> succeeds, and \<open>/a\<close>, a path not under the old path, lists
  other children than before.
\<close>

theorem rename_frame_counterexample:
  "lookup twoFiles [lit ''a.txt''] = Some (File (lit ''x''))
   \<and> lookup twoFiles [lit ''b.txt'', lit ''c''] = None
   \<and> rename twoFiles [lit ''a.txt''] [lit ''b.txt'', lit ''c''] = Inl NotADirectory
   \<and> \<not> (\<exists>root'. read root' [lit ''b.txt'', lit ''c''] = Inr (lit ''x'')
              \<and> read root' [lit ''b.txt''] = read twoFiles [lit ''b.txt''])
   \<and> rename nestedFile [lit ''a'', lit ''b.txt''] [lit ''a'', lit ''c.txt'']
        = Inr (Dir [(lit ''a'', Dir [(lit ''c.txt'', File (lit ''x''))])])
   \<and> \<not> prefix [lit ''a'', lit ''b.txt''] [lit ''a'']
   \<and> listDir (Dir [(lit ''a'', Dir [(lit ''c.txt'', File (lit ''x''))])]) [lit ''a'']
        \<noteq> listDir nestedFile [lit ''a'']"
proof -
  have a: "lookup twoFiles [lit ''a.txt''] = Some (File (lit ''x''))"
    by (simp add: twoFiles_def)
  have b: "lookup twoFiles [lit ''b.txt'', lit ''c''] = None"
    by (simp add: twoFiles_def names_simps)
  have c: "rename twoFiles [lit ''a.txt''] [lit ''b.txt'', lit ''c''] = Inl NotADirectory"
    by (simp add: rename_def twoFiles_def validPath_def names_simps)
  have d: "\<not> (\<exists>root'. read root' [lit ''b.txt'', lit ''c''] = Inr (lit ''x'')
              \<and> read root' [lit ''b.txt''] = read twoFiles [lit ''b.txt''])"
  proof
    assume "\<exists>root'. read root' [lit ''b.txt'', lit ''c''] = Inr (lit ''x'')
              \<and> read root' [lit ''b.txt''] = read twoFiles [lit ''b.txt'']"
    then obtain root' where r1: "read root' [lit ''b.txt'', lit ''c''] = Inr (lit ''x'')"
      and r2: "read root' [lit ''b.txt''] = read twoFiles [lit ''b.txt'']" by blast
    have "read twoFiles [lit ''b.txt''] = Inr (lit ''y'')"
      by (simp add: read_def twoFiles_def names_simps)
    with r2 have "lookup root' [lit ''b.txt''] = Some (File (lit ''y''))"
      by (simp add: read_def split: option.splits node.splits)
    then have "lookup root' ([lit ''b.txt''] @ [lit ''c'']) = None"
      by (simp only: lookup_append) simp
    then show False using r1 by (simp add: read_def)
  qed
  have e: "rename nestedFile [lit ''a'', lit ''b.txt''] [lit ''a'', lit ''c.txt'']
        = Inr (Dir [(lit ''a'', Dir [(lit ''c.txt'', File (lit ''x''))])])"
    by (simp add: rename_def nestedFile_def validPath_def names_simps)
  have f: "\<not> prefix [lit ''a'', lit ''b.txt''] [lit ''a'']" by simp
  have g: "listDir (Dir [(lit ''a'', Dir [(lit ''c.txt'', File (lit ''x''))])]) [lit ''a'']
        \<noteq> listDir nestedFile [lit ''a'']"
    by (simp add: listDir_def nestedFile_def names_simps)
  from a b c d e f g show ?thesis by blast
qed

section \<open>Properties: The Transform Pipeline\<close>






















end
